theory Spec2Isabelle
  imports Complex_Main "HOL-Library.Char_ord" "HOL-Library.List_Lexorder"
begin

section \<open>Data model\<close>

text \<open>
  A thrown \<^verbatim>\<open>Error\<close> is a value carrying the message of the source. Timestamps are
  JavaScript numbers holding whole milliseconds; they are modelled as \<^typ>\<open>int\<close>.
\<close>

datatype error = Error string

text \<open>
  \<^verbatim>\<open>IClientTimestamp\<close>: the two fields \<^verbatim>\<open>LiveEvent.isNewer\<close> reads. The record is
  extensible, as the TypeScript interface is: an event with more fields is accepted
  where an \<^verbatim>\<open>IClientTimestamp\<close> is expected. \<^verbatim>\<open>clientId\<close> is optional in the source.
\<close>

record IClientTimestamp =
  timestamp :: int
  clientId :: "string option"

datatype PresenceState = online | offline | away

text \<open>
  \<^verbatim>\<open>ILivePresenceEvent<TData>\<close>, with the fields that \<^verbatim>\<open>LivePresence._currentPresence\<close>
  is initialised with.
\<close>

record 'd ILivePresenceEvent = IClientTimestamp +
  name :: string
  userId :: string
  state :: PresenceState
  data :: "'d option"

section \<open>LiveEvent.isNewer\<close>

text \<open>
  \<^verbatim>\<open>String.prototype.localeCompare\<close> belongs to the platform, not to the repository, and
  its order is the collation of the host's locale. It is therefore a parameter \<open>lc\<close> of
  every definition whose source calls it: \<open>lc a b\<close> stands for \<^verbatim>\<open>a.localeCompare(b)\<close>,
  negative when \<open>a\<close> sorts before \<open>b\<close>, positive when it sorts after, and zero when the
  collation does not tell them apart (which it may do for two different strings).

  What the language standard requires of it is a consistent comparison: the sign flips
  when the arguments are swapped, and sorting at or before is transitive. A theorem that
  needs this says so among its assumptions.
\<close>

definition consistentComparator :: "(string \<Rightarrow> string \<Rightarrow> int) \<Rightarrow> bool" where
  "consistentComparator lc =
     ((\<forall>a b. (0 < lc a b) = (lc b a < 0))
      \<and> (\<forall>a b c. lc a b \<le> 0 \<and> lc b c \<le> 0 \<longrightarrow> lc a c \<le> 0))"

text \<open>
  One such comparison, used in the examples only: the lexicographic order of the
  characters' codes. On the lower-case letters and digits the examples are written with,
  it sorts as the collations do.
\<close>

definition codeUnitCompare :: "string \<Rightarrow> string \<Rightarrow> int" where
  "codeUnitCompare a b = (if a < b then - 1 else if a = b then 0 else 1)"

text \<open>
  A second comparison for the examples, one that does not tell every pair of different
  strings apart: it compares as the first does after reading the capital \<open>A\<close> as \<open>a\<close>.
\<close>

definition foldCompare :: "string \<Rightarrow> string \<Rightarrow> int" where
  "foldCompare a b =
     codeUnitCompare (map (\<lambda>c. if c = CHR ''A'' then CHR ''a'' else c) a)
                     (map (\<lambda>c. if c = CHR ''A'' then CHR ''a'' else c) b)"

text \<open>\<^verbatim>\<open>x || ""\<close> on an optional string: \<^verbatim>\<open>undefined\<close> and the empty string both give the empty string.\<close>

definition orEmpty :: "string option \<Rightarrow> string" where
  "orEmpty s = (case s of None \<Rightarrow> [] | Some v \<Rightarrow> v)"

text \<open>
  \<^verbatim>\<open>LiveEvent.isNewer(current, received, debouncePeriod = 0)\<close>, branch by branch. Every
  inner \<^verbatim>\<open>if\<close> of the source returns \<^verbatim>\<open>false\<close>, and whatever falls through them reaches the
  final \<^verbatim>\<open>return true\<close>.
\<close>

definition isNewer ::
  "(string \<Rightarrow> string \<Rightarrow> int)
     \<Rightarrow> ('a IClientTimestamp_scheme) option \<Rightarrow> 'b IClientTimestamp_scheme \<Rightarrow> int \<Rightarrow> bool" where
  "isNewer lc current received debouncePeriod =
     (case current of
        None \<Rightarrow> True
      | Some cur \<Rightarrow>
          if timestamp cur = timestamp received then
            (let cmp = lc (orEmpty (clientId cur)) (orEmpty (clientId received))
             in if cmp \<le> 0 then False else True)
          else if timestamp cur > timestamp received then
            (let delta = timestamp cur - timestamp received
             in if delta > debouncePeriod then False else True)
          else
            (let delta = timestamp received - timestamp cur
             in if delta < debouncePeriod then False else True))"

text \<open>
  The replacement rule a replica applies to each delivered record: the received record
  replaces the current one whenever \<^const>\<open>isNewer\<close> says so. A replica starts with no
  current record and folds the rule over its deliveries.
\<close>

definition replaceIfNewer ::
  "(string \<Rightarrow> string \<Rightarrow> int) \<Rightarrow> int
     \<Rightarrow> ('a IClientTimestamp_scheme) option \<Rightarrow> 'a IClientTimestamp_scheme
     \<Rightarrow> ('a IClientTimestamp_scheme) option" where
  "replaceIfNewer lc debouncePeriod current received =
     (if isNewer lc current received debouncePeriod then Some received else current)"

definition replica ::
  "(string \<Rightarrow> string \<Rightarrow> int) \<Rightarrow> int
     \<Rightarrow> ('a IClientTimestamp_scheme) list \<Rightarrow> ('a IClientTimestamp_scheme) option" where
  "replica lc debouncePeriod deliveries =
     foldl (replaceIfNewer lc debouncePeriod) None deliveries"




section \<open>LivePresence\<close>

text \<open>
  Modelled from the spec: the expiration period of a presence user is
  \<^verbatim>\<open>expirationPeriodMs\<close>, a number of milliseconds; the source constructs it as
  \<^verbatim>\<open>new TimeInterval(20000)\<close> for the documented default of 20 seconds. The class
  \<^verbatim>\<open>TimeInterval\<close> itself (imported from \<^verbatim>\<open>./TimeInterval\<close>) is not among the sources, so
  its \<^verbatim>\<open>seconds\<close> accessor is not modelled: the getter and the setter of \<^verbatim>\<open>seconds\<close> are
  parameters of the two definitions that call them.
\<close>

record TimeInterval =
  milliseconds :: real

text \<open>
  Modelled from the spec: \<^verbatim>\<open>LivePresenceUser\<close> (imported from \<^verbatim>\<open>./LivePresenceUser\<close>, not
  among the sources). It wraps the latest accepted record of a user and the local-user
  flag. The expiration period is the roster's own \<^verbatim>\<open>TimeInterval\<close> object, shared by
  reference, so the model reads it from the roster.
\<close>

record 'd LivePresenceUser =
  evt :: "'d ILivePresenceEvent"
  isLocalUser :: bool

text \<open>
  Modelled from the spec: the \<^verbatim>\<open>state\<close> getter of \<^verbatim>\<open>LivePresenceUser\<close>: the effective
  state is offline once \<^verbatim>\<open>now() - record.timestamp > expirationPeriodMs\<close>, and the stored
  state otherwise.
\<close>

definition userState :: "TimeInterval \<Rightarrow> int \<Rightarrow> 'd LivePresenceUser \<Rightarrow> PresenceState" where
  "userState expiration now u =
     (if real_of_int (now - timestamp (evt u)) > milliseconds expiration then offline
      else state (evt u))"

text \<open>
  Modelled from the spec: \<^verbatim>\<open>LivePresenceUser.updateReceived\<close>: apply
  \<^verbatim>\<open>isNewer(existing, record, 0)\<close>; if true, replace the stored record and expose the
  change, else no-op. The result is the changed flag and the user after the call.
\<close>

definition updateReceived ::
  "(string \<Rightarrow> string \<Rightarrow> int)
     \<Rightarrow> 'd LivePresenceUser \<Rightarrow> 'd ILivePresenceEvent \<Rightarrow> bool \<times> 'd LivePresenceUser" where
  "updateReceived lc u e =
     (if isNewer lc (Some (evt u)) e 0 then (True, u\<lparr>evt := e\<rparr>) else (False, u))"

text \<open>
  The fields of a \<^verbatim>\<open>LivePresence\<close> object. \<^verbatim>\<open>scope\<close> says whether \<^verbatim>\<open>_scope\<close> is set;
  \<^verbatim>\<open>emitted\<close> is the log of \<^verbatim>\<open>presenceChanged\<close> notifications (user, local), oldest first.
\<close>

record 'd LivePresence =
  expirationPeriodInterval :: TimeInterval
  users :: "'d LivePresenceUser list"
  currentPresence :: "'d ILivePresenceEvent"
  scope :: bool
  emitted :: "('d LivePresenceUser \<times> bool) list"

definition newLivePresence :: "'d LivePresence" where
  "newLivePresence =
     \<lparr>expirationPeriodInterval = \<lparr>milliseconds = 20000\<rparr>,
      users = [],
      currentPresence =
        \<lparr>timestamp = 0, clientId = None, name = ''UpdatePresence'', userId = [],
         state = offline, data = None\<rparr>,
      scope = False,
      emitted = []\<rparr>"

definition isInitialized :: "'d LivePresence \<Rightarrow> bool" where
  "isInitialized p = scope p"



text \<open>
  The scan loop of \<^verbatim>\<open>updateMembersList\<close>, from position \<open>pos\<close>: it returns from inside
  the loop when the user is found, and leaves the loop with the insert position otherwise
  (on \<^verbatim>\<open>break\<close>, or when \<open>pos\<close> reaches the length).
\<close>

datatype scan = Found nat | InsertAt nat

function scanUsers ::
  "(string \<Rightarrow> string \<Rightarrow> int) \<Rightarrow> string \<Rightarrow> 'd LivePresenceUser list \<Rightarrow> nat \<Rightarrow> scan" where
  "scanUsers lc uid us pos =
     (if pos < length us then
        (let cmp = lc uid (userId (evt (us ! pos)))
         in if cmp = 0 then Found pos
            else if cmp > 0 then InsertAt pos
            else scanUsers lc uid us (pos + 1))
      else InsertAt pos)"
  by pat_completeness auto
termination
  by (relation "measure (\<lambda>(lc, uid, us, pos). length us - pos)") auto

declare scanUsers.simps [simp del]

definition updateMembersList ::
  "(string \<Rightarrow> string \<Rightarrow> int)
     \<Rightarrow> 'd LivePresence \<Rightarrow> 'd ILivePresenceEvent \<Rightarrow> bool \<Rightarrow> 'd LivePresence" where
  "updateMembersList lc p e local =
     (case scanUsers lc (userId e) (users p) 0 of
        Found pos \<Rightarrow>
          (case updateReceived lc (users p ! pos) e of
             (changed, current) \<Rightarrow>
               if changed then
                 p\<lparr>users := (users p)[pos := current],
                   emitted := emitted p @ [(current, local)]\<rparr>
               else p\<lparr>users := (users p)[pos := current]\<rparr>)
      | InsertAt pos \<Rightarrow>
          (let newUser = \<lparr>evt = e, isLocalUser = (userId e = userId (currentPresence p))\<rparr>
           in p\<lparr>users := take pos (users p) @ newUser # drop pos (users p),
                emitted := emitted p @ [(newUser, local)]\<rparr>))"

text \<open>A sequence of merges, each an event with its \<^verbatim>\<open>local\<close> flag.\<close>

definition mergeAll ::
  "(string \<Rightarrow> string \<Rightarrow> int)
     \<Rightarrow> 'd LivePresence \<Rightarrow> ('d ILivePresenceEvent \<times> bool) list \<Rightarrow> 'd LivePresence" where
  "mergeAll lc p evs = foldl (\<lambda>q (e, local). updateMembersList lc q e local) p evs"

text \<open>
  \<^verbatim>\<open>initialize(userId?, data?, state)\<close>, once the connection is there. The timestamp
  provider's reading \<open>now\<close>, the generated GUID \<open>guid\<close> and the client id the
  connection assigns are inputs.
\<close>

definition initialize ::
  "(string \<Rightarrow> string \<Rightarrow> int)
     \<Rightarrow> 'd LivePresence \<Rightarrow> string option \<Rightarrow> 'd option \<Rightarrow> PresenceState \<Rightarrow> int \<Rightarrow> string \<Rightarrow> string
     \<Rightarrow> error + 'd LivePresence" where
  "initialize lc p uid d st now guid cid =
     (if scope p then Inl (Error ''LivePresence: already started.'')
      else
        (let cur = (currentPresence p)
               \<lparr>timestamp := now,
                userId := (if orEmpty uid = [] then guid else orEmpty uid),
                data := d,
                state := st,
                clientId := Some cid\<rparr>;
             p1 = p\<lparr>currentPresence := cur, scope := True\<rparr>
         in Inr (updateMembersList lc p1 cur True)))"

text \<open>
  \<^verbatim>\<open>updatePresence(state?, data?)\<close>: the guard, then the broadcast once connected. The
  event target stamps the event with the name and the timestamp \<open>now\<close>.
\<close>

definition updatePresence ::
  "(string \<Rightarrow> string \<Rightarrow> int)
     \<Rightarrow> 'd LivePresence \<Rightarrow> PresenceState option \<Rightarrow> 'd option \<Rightarrow> int \<Rightarrow> string
     \<Rightarrow> error + 'd LivePresence" where
  "updatePresence lc p st d now cid =
     (if \<not> scope p then Inl (Error ''LivePresence: not started.'')
      else
        (let e = \<lparr>timestamp = now, clientId = Some cid, name = ''UpdatePresence'',
                  userId = userId (currentPresence p),
                  state = (case st of None \<Rightarrow> state (currentPresence p) | Some s \<Rightarrow> s),
                  data = (case d of None \<Rightarrow> data (currentPresence p) | Some v \<Rightarrow> Some v)\<rparr>
         in Inr (updateMembersList lc (p\<lparr>currentPresence := e\<rparr>) e True)))"

text \<open>
  \<^verbatim>\<open>forEach(callback, filter?)\<close>: the users the callback is called with, in call order.
  The source has no guard and no \<^verbatim>\<open>throw\<close> here, so the result is always \<open>Inr\<close>.
\<close>

definition forEach ::
  "'d LivePresence \<Rightarrow> PresenceState option \<Rightarrow> int \<Rightarrow> error + 'd LivePresenceUser list" where
  "forEach p flt now =
     Inr (filter
            (\<lambda>user. case flt of
                       None \<Rightarrow> True
                     | Some f \<Rightarrow> userState (expirationPeriodInterval p) now user = f)
            (users p))"

definition toArray :: "'d LivePresence \<Rightarrow> int \<Rightarrow> error + 'd LivePresenceUser list" where
  "toArray p now = forEach p None now"

definition getCount :: "'d LivePresence \<Rightarrow> PresenceState option \<Rightarrow> int \<Rightarrow> error + nat" where
  "getCount p flt now =
     (case flt of
        Some f \<Rightarrow>
          Inr (length (filter (\<lambda>user. userState (expirationPeriodInterval p) now user = f)
                         (users p)))
      | None \<Rightarrow> Inr (length (users p)))"

definition getPresenceForUser ::
  "'d LivePresence \<Rightarrow> string \<Rightarrow> error + 'd LivePresenceUser option" where
  "getPresenceForUser p uid = Inr (find (\<lambda>user. userId (evt user) = uid) (users p))"

text \<open>
  The roster's order: every user id sorts strictly before the ids in front of it, in the
  order of the comparison.
\<close>

definition descending :: "(string \<Rightarrow> string \<Rightarrow> int) \<Rightarrow> string list \<Rightarrow> bool" where
  "descending lc ids = sorted_wrt (\<lambda>a b. lc b a < 0) ids"

text \<open>The user ids of a roster, in roster order.\<close>

definition userIds :: "'d LivePresenceUser list \<Rightarrow> string list" where
  "userIds us = map (\<lambda>u. userId (evt u)) us"

text \<open>
  The \<^verbatim>\<open>UpdatePresence\<close> event of an online user that shares no data, as
  \<^verbatim>\<open>updatePresence\<close> builds it; the examples below are made of these.
\<close>

definition onlineEvent :: "string \<Rightarrow> int \<Rightarrow> string \<Rightarrow> unit ILivePresenceEvent" where
  "onlineEvent uid ts cid =
     \<lparr>timestamp = ts, clientId = Some cid, name = ''UpdatePresence'', userId = uid,
      state = online, data = None\<rparr>"

section \<open>SharedClock\<close>

record IServerTimeOffset =
  offset :: int
  serverTimeInUtc :: int
  localTimeInUtc :: int
  requestLatency :: real

text \<open>\<^verbatim>\<open>syncTimer\<close> says whether a timer for the next \<^verbatim>\<open>improveAccuracy\<close> is pending.\<close>

record SharedClock =
  serverTime :: "IServerTimeOffset option"
  syncTimer :: bool
  retries :: nat
  lastTimeSent :: int

definition newSharedClock :: SharedClock where
  "newSharedClock = \<lparr>serverTime = None, syncTimer = False, retries = 0, lastTimeSent = 0\<rparr>"

definition SHARED_CLOCK_IMPROVE_ACCURACY_ATTEMPTS :: nat where
  "SHARED_CLOCK_IMPROVE_ACCURACY_ATTEMPTS = 5"

definition isRunning :: "SharedClock \<Rightarrow> bool" where
  "isRunning c = (serverTime c \<noteq> None)"

text \<open>\<^verbatim>\<open>getTimestamp()\<close>; \<open>localNow\<close> is the reading of \<^verbatim>\<open>new Date().getTime()\<close>.\<close>

definition getTimestamp :: "SharedClock \<Rightarrow> int \<Rightarrow> error + (int \<times> SharedClock)" where
  "getTimestamp c localNow =
     (case serverTime c of
        None \<Rightarrow> Inl (Error ''SharedClock: can't call getTimestamp() before calling initialize().'')
      | Some st \<Rightarrow>
          (let t = max (localNow + offset st) (lastTimeSent c + 1)
           in Inr (t, c\<lparr>lastTimeSent := t\<rparr>)))"

definition getMaxTimestampError :: "SharedClock \<Rightarrow> error + int" where
  "getMaxTimestampError c =
     (case serverTime c of
        None \<Rightarrow> Inl (Error ''SharedClock: can't call getTimestamp() before calling initialize().'')
      | Some st \<Rightarrow> Inr (\<lfloor>requestLatency st / 2\<rfloor>))"

definition stop :: "SharedClock \<Rightarrow> SharedClock" where
  "stop c = c\<lparr>serverTime := None, retries := 0, syncTimer := False\<rparr>"

text \<open>
  \<^verbatim>\<open>getSessionTimeOffset()\<close>: \<open>startCall\<close> and \<open>endCall\<close> are the two readings of
  \<^verbatim>\<open>performance.now()\<close>, \<open>ntpTimeInUTC\<close> the host's answer, \<open>now\<close> the local time.
\<close>

definition getSessionTimeOffset :: "real \<Rightarrow> int \<Rightarrow> real \<Rightarrow> int \<Rightarrow> IServerTimeOffset" where
  "getSessionTimeOffset startCall ntpTimeInUTC endCall now =
     (let latency = endCall - startCall;
          serverTimeUtc = ntpTimeInUTC + \<lfloor>latency / 2\<rfloor>
      in \<lparr>offset = serverTimeUtc - now, serverTimeInUtc = serverTimeUtc,
          localTimeInUtc = now, requestLatency = latency\<rparr>)"

text \<open>
  One run of \<^verbatim>\<open>improveAccuracy()\<close>, given the offset its probe computed. The result
  says through \<^const>\<open>syncTimer\<close> whether a further run is scheduled.
\<close>

definition improveAccuracy :: "SharedClock \<Rightarrow> IServerTimeOffset \<Rightarrow> SharedClock" where
  "improveAccuracy c probe =
     (let c1 = (case serverTime c of
                  None \<Rightarrow> c\<lparr>serverTime := Some probe, retries := 0\<rparr>
                | Some st \<Rightarrow>
                    if requestLatency probe < requestLatency st
                    then c\<lparr>serverTime := Some probe, retries := 0\<rparr>
                    else c\<lparr>retries := retries c + 1\<rparr>)
      in if retries c1 \<le> SHARED_CLOCK_IMPROVE_ACCURACY_ATTEMPTS
         then c1\<lparr>syncTimer := True\<rparr>
         else c1\<lparr>syncTimer := False\<rparr>)"

definition start :: "SharedClock \<Rightarrow> IServerTimeOffset \<Rightarrow> SharedClock" where
  "start c probe = improveAccuracy (stop c) probe"

text \<open>
  What can happen to a clock between two reads: a read with the local clock's value, a
  run of \<^verbatim>\<open>improveAccuracy\<close> with its probe, a stop, a start. \<open>timestamps\<close> collects
  the values the reads return; a read that throws returns none and changes nothing.
\<close>

datatype clockCall =
  GetTimestamp int
  | ImproveAccuracy IServerTimeOffset
  | Stop
  | Start IServerTimeOffset

fun timestamps :: "SharedClock \<Rightarrow> clockCall list \<Rightarrow> int list" where
  "timestamps c [] = []"
| "timestamps c (GetTimestamp localNow # calls) =
     (case getTimestamp c localNow of
        Inl e \<Rightarrow> timestamps c calls
      | Inr (t, c') \<Rightarrow> t # timestamps c' calls)"
| "timestamps c (ImproveAccuracy probe # calls) = timestamps (improveAccuracy c probe) calls"
| "timestamps c (Stop # calls) = timestamps (stop c) calls"
| "timestamps c (Start probe # calls) = timestamps (start c probe) calls"

text \<open>The probes of a list run one after the other on a clock.\<close>

definition probeAll :: "SharedClock \<Rightarrow> IServerTimeOffset list \<Rightarrow> SharedClock" where
  "probeAll c probes = foldl improveAccuracy c probes"

section \<open>Consistent comparisons\<close>

lemma cc_anti: "consistentComparator lc \<Longrightarrow> (0 < lc a b) = (lc b a < 0)"
  by (simp add: consistentComparator_def)

lemma cc_le_trans:
  "consistentComparator lc \<Longrightarrow> lc a b \<le> 0 \<Longrightarrow> lc b c \<le> 0 \<Longrightarrow> lc a c \<le> 0"
  unfolding consistentComparator_def by blast

lemma cc_refl: "consistentComparator lc \<Longrightarrow> lc a a = 0"
  using cc_anti [of lc a a] by auto

lemma cc_sym: "consistentComparator lc \<Longrightarrow> lc a b = 0 \<Longrightarrow> lc b a = 0"
  using cc_anti [of lc a b] cc_anti [of lc b a] by auto

lemma cc_lt_le_trans:
  assumes "consistentComparator lc" and "lc a b < 0" and "lc b c \<le> 0"
  shows "lc a c < 0"
proof (rule ccontr)
  assume "\<not> lc a c < 0"
  moreover have "lc a c \<le> 0" using cc_le_trans [OF assms(1), of a b c] assms(2,3) by simp
  ultimately have "lc a c = 0" by simp
  then have "lc c a \<le> 0" using cc_sym [OF assms(1), of a c] by simp
  with assms(3) have "lc b a \<le> 0" using cc_le_trans [OF assms(1), of b c a] by simp
  moreover from assms(2) have "0 < lc b a" using cc_anti [OF assms(1), of b a] by simp
  ultimately show False by simp
qed

lemma cc_le_lt_trans:
  assumes "consistentComparator lc" and "lc a b \<le> 0" and "lc b c < 0"
  shows "lc a c < 0"
proof (rule ccontr)
  assume "\<not> lc a c < 0"
  moreover have "lc a c \<le> 0" using cc_le_trans [OF assms(1), of a b c] assms(2,3) by simp
  ultimately have "lc a c = 0" by simp
  then have "lc c a \<le> 0" using cc_sym [OF assms(1), of a c] by simp
  with assms(2) have "lc c b \<le> 0" using cc_le_trans [OF assms(1), of c a b] by simp
  moreover from assms(3) have "0 < lc c b" using cc_anti [OF assms(1), of c b] by simp
  ultimately show False by simp
qed

lemma cc_lt_trans:
  "consistentComparator lc \<Longrightarrow> lc a b < 0 \<Longrightarrow> lc b c < 0 \<Longrightarrow> lc a c < 0"
  using cc_lt_le_trans [of lc a b c] by simp


lemma codeUnitCompare_consistent: "consistentComparator codeUnitCompare"
  by (auto simp: consistentComparator_def codeUnitCompare_def)

lemma foldCompare_consistent: "consistentComparator foldCompare"
  by (auto simp: consistentComparator_def foldCompare_def codeUnitCompare_def)

section \<open>Properties of isNewer\<close>

text \<open>
  C1, as the code has it. When \<open>current\<close> is present and both timestamps are equal,
  \<^const>\<open>isNewer\<close> returns true if and only if
  \<^verbatim>\<open>current.clientId.localeCompare(received.clientId)\<close> is positive: the current client id
  sorts strictly after the received one, so the received record wins only when its
  client id sorts strictly \<^emph>\<open>before\<close> the current one's (the source's comment: the client
  id with the lower sort order wins a tie). The order is the platform's, whatever it is;
  an absent client id counts as the empty string, and the debounce period plays no part.
\<close>

theorem isNewer_equal_timestamps:
  "timestamp cur = timestamp received \<Longrightarrow>
     (isNewer lc (Some cur) received debouncePeriod
        \<longleftrightarrow> 0 < lc (orEmpty (clientId cur)) (orEmpty (clientId received)))
     \<and> (consistentComparator lc \<longrightarrow>
          (isNewer lc (Some cur) received debouncePeriod
             \<longleftrightarrow> lc (orEmpty (clientId received)) (orEmpty (clientId cur)) < 0))"
proof -
  assume ts: "timestamp cur = timestamp received"
  have 1: "isNewer lc (Some cur) received debouncePeriod
        \<longleftrightarrow> 0 < lc (orEmpty (clientId cur)) (orEmpty (clientId received))"
    using ts by (auto simp: isNewer_def Let_def)
  have 2: "consistentComparator lc \<longrightarrow>
      (0 < lc (orEmpty (clientId cur)) (orEmpty (clientId received)))
        = (lc (orEmpty (clientId received)) (orEmpty (clientId cur)) < 0)"
    using cc_anti [of lc "orEmpty (clientId cur)" "orEmpty (clientId received)"] by blast
  from 1 2 show ?thesis by blast
qed

text \<open>
  With client ids \<open>a\<close> and \<open>b\<close>: current \<open>b\<close> gives way to received \<open>a\<close>, current
  \<open>a\<close> does not give way to received \<open>b\<close>, and equal ids do not replace one another.
\<close>

theorem isNewer_equal_timestamps_witness:
  "isNewer codeUnitCompare (Some \<lparr>timestamp = 100, clientId = Some ''b''\<rparr>)
           \<lparr>timestamp = 100, clientId = Some ''a''\<rparr> 0
   \<and> \<not> isNewer codeUnitCompare (Some \<lparr>timestamp = 100, clientId = Some ''a''\<rparr>)
               \<lparr>timestamp = 100, clientId = Some ''b''\<rparr> 0
   \<and> \<not> isNewer codeUnitCompare (Some \<lparr>timestamp = 100, clientId = Some ''a''\<rparr>)
               \<lparr>timestamp = 100, clientId = Some ''a''\<rparr> 0"
  using
    isNewer_equal_timestamps
      [where cur = "\<lparr>timestamp = 100, clientId = Some ''b''\<rparr>" and lc = codeUnitCompare
         and received = "\<lparr>timestamp = 100, clientId = Some ''a''\<rparr>" and debouncePeriod = 0]
    isNewer_equal_timestamps
      [where cur = "\<lparr>timestamp = 100, clientId = Some ''a''\<rparr>" and lc = codeUnitCompare
         and received = "\<lparr>timestamp = 100, clientId = Some ''b''\<rparr>" and debouncePeriod = 0]
    isNewer_equal_timestamps
      [where cur = "\<lparr>timestamp = 100, clientId = Some ''a''\<rparr>" and lc = codeUnitCompare
         and received = "\<lparr>timestamp = 100, clientId = Some ''a''\<rparr>" and debouncePeriod = 0]
  by (simp add: orEmpty_def codeUnitCompare_def codeUnitCompare_consistent)

text \<open>
  The specification's example does not hold: with equal timestamps, current client id
  \<open>a\<close> and received client id \<open>b\<close>, which sorts after \<open>a\<close>, the result is false.
\<close>

theorem isNewer_tie_break_counterexample:
  "\<not> isNewer codeUnitCompare (Some \<lparr>timestamp = 100, clientId = Some ''a''\<rparr>)
             \<lparr>timestamp = 100, clientId = Some ''b''\<rparr> 0
   \<and> codeUnitCompare ''a'' ''b'' < 0"
  by (simp add: isNewer_def codeUnitCompare_def orEmpty_def)

text \<open>
  C3, as the code has it. When the current timestamp is strictly greater than the
  received one, \<^const>\<open>isNewer\<close> returns true if and only if the difference is at most
  the debounce period: the older record is accepted when the current one arrived within
  the debounce window after it, and rejected when the difference exceeds the window.
\<close>

theorem isNewer_received_older:
  "timestamp cur > timestamp received \<Longrightarrow>
     isNewer lc (Some cur) received debouncePeriod
       \<longleftrightarrow> timestamp cur - timestamp received \<le> debouncePeriod"
  by (auto simp: isNewer_def Let_def)

theorem isNewer_received_older_witness:
  "\<not> isNewer codeUnitCompare (Some \<lparr>timestamp = 1000, clientId = None\<rparr>) \<lparr>timestamp = 990, clientId = None\<rparr> 5
   \<and> isNewer codeUnitCompare (Some \<lparr>timestamp = 1000, clientId = None\<rparr>) \<lparr>timestamp = 995, clientId = None\<rparr> 5
   \<and> \<not> isNewer codeUnitCompare (Some \<lparr>timestamp = 1000, clientId = None\<rparr>) \<lparr>timestamp = 994, clientId = None\<rparr> 5"
  using
    isNewer_received_older
      [where cur = "\<lparr>timestamp = 1000, clientId = None\<rparr>" and lc = codeUnitCompare
         and received = "\<lparr>timestamp = 990, clientId = None\<rparr>" and debouncePeriod = 5]
    isNewer_received_older
      [where cur = "\<lparr>timestamp = 1000, clientId = None\<rparr>" and lc = codeUnitCompare
         and received = "\<lparr>timestamp = 995, clientId = None\<rparr>" and debouncePeriod = 5]
    isNewer_received_older
      [where cur = "\<lparr>timestamp = 1000, clientId = None\<rparr>" and lc = codeUnitCompare
         and received = "\<lparr>timestamp = 994, clientId = None\<rparr>" and debouncePeriod = 5]
  by simp

text \<open>
  The older record is not accepted where the difference exceeds the debounce period:
  current 1000, received 990, debounce 5 gives false although \<open>1000 - 990 > 5\<close>.
\<close>

theorem isNewer_received_older_counterexample:
  "\<not> isNewer codeUnitCompare (Some \<lparr>timestamp = 1000, clientId = None\<rparr>) \<lparr>timestamp = 990, clientId = None\<rparr> 5
   \<and> (1000::int) - 990 > 5"
  by (simp add: isNewer_def)

text \<open>
  C4. When the received timestamp is strictly greater than the current one,
  \<^const>\<open>isNewer\<close> returns true if and only if the difference is at least the debounce
  period.
\<close>

theorem isNewer_received_later:
  "timestamp received > timestamp cur \<Longrightarrow>
     isNewer lc (Some cur) received debouncePeriod
       \<longleftrightarrow> timestamp received - timestamp cur \<ge> debouncePeriod"
  by (auto simp: isNewer_def Let_def)

text \<open>
  The two examples: 1000 then 1003 is too soon for a debounce of 5, 1006 is not.
\<close>

theorem isNewer_received_later_witness:
  "\<not> isNewer codeUnitCompare (Some \<lparr>timestamp = 1000, clientId = None\<rparr>) \<lparr>timestamp = 1003, clientId = None\<rparr> 5
   \<and> isNewer codeUnitCompare (Some \<lparr>timestamp = 1000, clientId = None\<rparr>) \<lparr>timestamp = 1006, clientId = None\<rparr> 5"
  using
    isNewer_received_later
      [where cur = "\<lparr>timestamp = 1000, clientId = None\<rparr>" and lc = codeUnitCompare
         and received = "\<lparr>timestamp = 1003, clientId = None\<rparr>" and debouncePeriod = 5]
    isNewer_received_later
      [where cur = "\<lparr>timestamp = 1000, clientId = None\<rparr>" and lc = codeUnitCompare
         and received = "\<lparr>timestamp = 1006, clientId = None\<rparr>" and debouncePeriod = 5]
  by simp

section \<open>Convergence of replicas\<close>










text \<open>
  Two different records with the same timestamp and client id: the one delivered first
  stays, so the proviso on the records is needed too.
\<close>

lemma replica_tied_order_dependent:
  "replica codeUnitCompare 0
     [\<lparr>timestamp = 100, clientId = Some ''a'', name = ''UpdatePresence'',
        userId = ''u1'', state = online, data = None :: unit option\<rparr>,
      \<lparr>timestamp = 100, clientId = Some ''a'', name = ''UpdatePresence'',
        userId = ''u1'', state = away, data = None\<rparr>]
     = Some \<lparr>timestamp = 100, clientId = Some ''a'', name = ''UpdatePresence'',
                userId = ''u1'', state = online, data = None\<rparr>
   \<and> replica codeUnitCompare 0
       [\<lparr>timestamp = 100, clientId = Some ''a'', name = ''UpdatePresence'',
          userId = ''u1'', state = away, data = None :: unit option\<rparr>,
        \<lparr>timestamp = 100, clientId = Some ''a'', name = ''UpdatePresence'',
          userId = ''u1'', state = online, data = None\<rparr>]
     = Some \<lparr>timestamp = 100, clientId = Some ''a'', name = ''UpdatePresence'',
                userId = ''u1'', state = away, data = None\<rparr>"
  by (simp add: replica_def replaceIfNewer_def isNewer_def codeUnitCompare_def orEmpty_def)

text \<open>
  The same with two different client ids that the comparison does not tell apart.
\<close>

lemma replica_tied_ids_order_dependent:
  "replica foldCompare 0
     [\<lparr>timestamp = 100, clientId = Some ''a''\<rparr>, \<lparr>timestamp = 100, clientId = Some ''A''\<rparr>]
     = Some \<lparr>timestamp = 100, clientId = Some ''a''\<rparr>
   \<and> replica foldCompare 0
     [\<lparr>timestamp = 100, clientId = Some ''A''\<rparr>, \<lparr>timestamp = 100, clientId = Some ''a''\<rparr>]
     = Some \<lparr>timestamp = 100, clientId = Some ''A''\<rparr>"
  by (simp add: replica_def replaceIfNewer_def isNewer_def foldCompare_def codeUnitCompare_def
      orEmpty_def)

section \<open>The shared clock\<close>

lemma getTimestamp_greater:
  "getTimestamp c localNow = Inr (t, c') \<Longrightarrow> lastTimeSent c < t \<and> lastTimeSent c' = t"
  by (auto simp: getTimestamp_def Let_def split: option.splits)

lemma improveAccuracy_lastTimeSent: "lastTimeSent (improveAccuracy c probe) = lastTimeSent c"
  by (simp add: improveAccuracy_def Let_def split: option.splits)

lemma stop_lastTimeSent: "lastTimeSent (stop c) = lastTimeSent c"
  by (simp add: stop_def)

lemma start_lastTimeSent: "lastTimeSent (start c probe) = lastTimeSent c"
  by (simp add: start_def improveAccuracy_lastTimeSent stop_lastTimeSent)

lemma timestamps_above_last: "t \<in> set (timestamps c calls) \<Longrightarrow> lastTimeSent c < t"
proof (induction c calls rule: timestamps.induct)
  case (2 c localNow calls)
  show ?case
  proof (cases "getTimestamp c localNow")
    case (Inl e)
    with 2 show ?thesis by simp
  next
    case (Inr r)
    obtain u c' where r: "r = (u, c')" by (cases r)
    from getTimestamp_greater Inr r have g: "lastTimeSent c < u" "lastTimeSent c' = u" by blast+
    from "2.prems" Inr r have "t = u \<or> t \<in> set (timestamps c' calls)" by simp
    then show ?thesis
    proof
      assume "t = u" with g show ?thesis by simp
    next
      assume "t \<in> set (timestamps c' calls)"
      with "2.IH"(2) [OF Inr r [symmetric]] have "lastTimeSent c' < t" by simp
      with g show ?thesis by simp
    qed
  qed
qed (simp_all add: improveAccuracy_lastTimeSent stop_lastTimeSent start_lastTimeSent)

lemma timestamps_sorted: "sorted_wrt (<) (timestamps c calls)"
proof (induction c calls rule: timestamps.induct)
  case (2 c localNow calls)
  show ?case
  proof (cases "getTimestamp c localNow")
    case (Inl e)
    with 2 show ?thesis by simp
  next
    case (Inr r)
    obtain u c' where r: "r = (u, c')" by (cases r)
    from getTimestamp_greater Inr r have g: "lastTimeSent c' = u" by blast
    have "\<forall>t \<in> set (timestamps c' calls). u < t"
      using timestamps_above_last g by blast
    moreover have "sorted_wrt (<) (timestamps c' calls)"
      using "2.IH"(2) [OF Inr r [symmetric]] .
    ultimately show ?thesis using Inr r by simp
  qed
qed simp_all

lemma getTimestamp_running:
  "isRunning c \<Longrightarrow> \<exists>t. getTimestamp c localNow = Inr (t, c\<lparr>lastTimeSent := t\<rparr>)"
  by (auto simp: getTimestamp_def isRunning_def Let_def)

lemma improveAccuracy_running: "isRunning (improveAccuracy c probe)"
  by (simp add: improveAccuracy_def isRunning_def Let_def split: option.splits)

lemma start_running: "isRunning (start c probe)"
  by (simp add: start_def improveAccuracy_running)

lemma timestamps_all_return:
  "isRunning c \<Longrightarrow> Stop \<notin> set calls \<Longrightarrow>
     length (timestamps c calls) = length [localNow. GetTimestamp localNow \<leftarrow> calls]"
proof (induction c calls rule: timestamps.induct)
  case (2 c localNow calls)
  from getTimestamp_running [OF "2.prems"(1)] obtain t
    where t: "getTimestamp c localNow = Inr (t, c\<lparr>lastTimeSent := t\<rparr>)" by blast
  have "isRunning (c\<lparr>lastTimeSent := t\<rparr>)"
    using "2.prems"(1) by (simp add: isRunning_def)
  with "2.IH"(2) [OF t refl] "2.prems"(2) t show ?case by simp
qed (simp_all add: improveAccuracy_running start_running)

text \<open>
  C5. Whatever happens between the reads (the local clock going back, an
  \<^verbatim>\<open>improveAccuracy\<close> adopting a smaller offset, a stop and a start), the values that
  \<^verbatim>\<open>getTimestamp()\<close> returns on one instance are strictly increasing; and on a started
  clock that is not stopped every read returns a value.
\<close>

theorem timestamps_strictly_increasing:
  "sorted_wrt (<) (timestamps c calls)
   \<and> (isRunning c \<and> Stop \<notin> set calls \<longrightarrow>
        length (timestamps c calls) = length [localNow. GetTimestamp localNow \<leftarrow> calls])"
  using timestamps_sorted timestamps_all_return by blast

theorem timestamps_strictly_increasing_witness:
  "timestamps
     (start newSharedClock
        \<lparr>offset = 50, serverTimeInUtc = 1050, localTimeInUtc = 1000, requestLatency = 20\<rparr>)
     [GetTimestamp 1000, GetTimestamp 1000, GetTimestamp 990,
      ImproveAccuracy
        \<lparr>offset = - 500, serverTimeInUtc = 500, localTimeInUtc = 1000, requestLatency = 10\<rparr>,
      GetTimestamp 1001, GetTimestamp 2000]
     = [1050, 1051, 1052, 1053, 1500]
   \<and> sorted_wrt (<) [1050, 1051, 1052, 1053, 1500 :: int]"
proof -
  let ?c = "start newSharedClock
        \<lparr>offset = 50, serverTimeInUtc = 1050, localTimeInUtc = 1000, requestLatency = 20\<rparr>"
  let ?calls = "[GetTimestamp 1000, GetTimestamp 1000, GetTimestamp 990,
      ImproveAccuracy
        \<lparr>offset = - 500, serverTimeInUtc = 500, localTimeInUtc = 1000, requestLatency = 10\<rparr>,
      GetTimestamp 1001, GetTimestamp 2000]"
  have v: "timestamps ?c ?calls = [1050, 1051, 1052, 1053, 1500]"
    by (simp add: newSharedClock_def start_def stop_def improveAccuracy_def getTimestamp_def
        SHARED_CLOCK_IMPROVE_ACCURACY_ATTEMPTS_def)
  from timestamps_strictly_increasing [of ?c ?calls] v show ?thesis by simp
qed

text \<open>
  An estimate is adopted exactly when none exists yet or the probe's latency is strictly
  lower than the current one's.
\<close>

lemma improveAccuracy_adopts:
  "serverTime (improveAccuracy c probe) =
     (if serverTime c = None \<or> requestLatency probe < requestLatency (the (serverTime c))
      then Some probe else serverTime c)"
  by (simp add: improveAccuracy_def Let_def split: option.splits)

text \<open>
  Probes that do not improve on the current estimate only count up: after \<open>n\<close> of them
  in a row a further probe is scheduled as long as the counter is at most 5.
\<close>

lemma improveAccuracy_no_improvement:
  "serverTime c = Some st \<Longrightarrow> \<not> requestLatency probe < requestLatency st \<Longrightarrow>
     improveAccuracy c probe
       = c\<lparr>retries := retries c + 1,
           syncTimer := (retries c + 1 \<le> SHARED_CLOCK_IMPROVE_ACCURACY_ATTEMPTS)\<rparr>"
  by (simp add: improveAccuracy_def Let_def)

lemma probeAll_no_improvement:
  assumes "serverTime c = Some st" and "\<forall>probe \<in> set probes. \<not> requestLatency probe < requestLatency st"
    and "probes \<noteq> []"
  shows "serverTime (probeAll c probes) = Some st
       \<and> retries (probeAll c probes) = retries c + length probes
       \<and> syncTimer (probeAll c probes) = (retries c + length probes \<le> 5)"
  using assms(2,3)
proof (induction probes rule: rev_induct)
  case Nil
  then show ?case by simp
next
  case (snoc probe probes)
  have step: "probeAll c (probes @ [probe]) = improveAccuracy (probeAll c probes) probe"
    by (simp add: probeAll_def)
  have nl: "\<not> requestLatency probe < requestLatency st" using snoc.prems by simp
  show ?case
  proof (cases "probes = []")
    case True
    then have "probeAll c probes = c" by (simp add: probeAll_def)
    with step True improveAccuracy_no_improvement [OF assms(1) nl] show ?thesis
      by (simp add: assms(1) SHARED_CLOCK_IMPROVE_ACCURACY_ATTEMPTS_def)
  next
    case False
    with snoc have ih: "serverTime (probeAll c probes) = Some st"
      "retries (probeAll c probes) = retries c + length probes" by auto
    from step improveAccuracy_no_improvement [OF ih(1) nl] ih show ?thesis
      by (simp add: SHARED_CLOCK_IMPROVE_ACCURACY_ATTEMPTS_def)
  qed
qed

text \<open>
  C6. The clock is started with a probe of latency 10, and each further probe has
  latency 10 too, so none improves. After five of them in a row the retry counter is 5,
  the test \<^verbatim>\<open>_retries <= SHARED_CLOCK_IMPROVE_ACCURACY_ATTEMPTS\<close> still holds and a further
  probe is scheduled; only the sixth leaves no timer pending.
\<close>

theorem improveAccuracy_five_failures_still_scheduled:
  "retries (probeAll (start newSharedClock \<lparr>offset = 50, serverTimeInUtc = 1050, localTimeInUtc = 1000, requestLatency = 10\<rparr>) [\<lparr>offset = 50, serverTimeInUtc = 1050, localTimeInUtc = 1000, requestLatency = 10\<rparr>, \<lparr>offset = 50, serverTimeInUtc = 1050, localTimeInUtc = 1000, requestLatency = 10\<rparr>, \<lparr>offset = 50, serverTimeInUtc = 1050, localTimeInUtc = 1000, requestLatency = 10\<rparr>, \<lparr>offset = 50, serverTimeInUtc = 1050, localTimeInUtc = 1000, requestLatency = 10\<rparr>, \<lparr>offset = 50, serverTimeInUtc = 1050, localTimeInUtc = 1000, requestLatency = 10\<rparr>]) = 5
  \<and> syncTimer (probeAll (start newSharedClock \<lparr>offset = 50, serverTimeInUtc = 1050, localTimeInUtc = 1000, requestLatency = 10\<rparr>) [\<lparr>offset = 50, serverTimeInUtc = 1050, localTimeInUtc = 1000, requestLatency = 10\<rparr>, \<lparr>offset = 50, serverTimeInUtc = 1050, localTimeInUtc = 1000, requestLatency = 10\<rparr>, \<lparr>offset = 50, serverTimeInUtc = 1050, localTimeInUtc = 1000, requestLatency = 10\<rparr>, \<lparr>offset = 50, serverTimeInUtc = 1050, localTimeInUtc = 1000, requestLatency = 10\<rparr>, \<lparr>offset = 50, serverTimeInUtc = 1050, localTimeInUtc = 1000, requestLatency = 10\<rparr>])
  \<and> \<not> syncTimer (probeAll (start newSharedClock \<lparr>offset = 50, serverTimeInUtc = 1050, localTimeInUtc = 1000, requestLatency = 10\<rparr>) [\<lparr>offset = 50, serverTimeInUtc = 1050, localTimeInUtc = 1000, requestLatency = 10\<rparr>, \<lparr>offset = 50, serverTimeInUtc = 1050, localTimeInUtc = 1000, requestLatency = 10\<rparr>, \<lparr>offset = 50, serverTimeInUtc = 1050, localTimeInUtc = 1000, requestLatency = 10\<rparr>, \<lparr>offset = 50, serverTimeInUtc = 1050, localTimeInUtc = 1000, requestLatency = 10\<rparr>, \<lparr>offset = 50, serverTimeInUtc = 1050, localTimeInUtc = 1000, requestLatency = 10\<rparr>, \<lparr>offset = 50, serverTimeInUtc = 1050, localTimeInUtc = 1000, requestLatency = 10\<rparr>])"
  by (simp add: probeAll_def start_def stop_def newSharedClock_def improveAccuracy_def
      SHARED_CLOCK_IMPROVE_ACCURACY_ATTEMPTS_def)

section \<open>The scan of updateMembersList\<close>

lemma scanUsers_end: "\<not> pos < length us \<Longrightarrow> scanUsers lc uid us pos = InsertAt pos"
  by (subst scanUsers.simps) simp

lemma scanUsers_eq:
  "pos < length us \<Longrightarrow> lc uid (userId (evt (us ! pos))) = 0 \<Longrightarrow>
     scanUsers lc uid us pos = Found pos"
  by (subst scanUsers.simps) simp

lemma scanUsers_gt:
  "pos < length us \<Longrightarrow> 0 < lc uid (userId (evt (us ! pos))) \<Longrightarrow>
     scanUsers lc uid us pos = InsertAt pos"
  by (subst scanUsers.simps) simp

lemma scanUsers_lt:
  "pos < length us \<Longrightarrow> lc uid (userId (evt (us ! pos))) < 0 \<Longrightarrow>
     scanUsers lc uid us pos = scanUsers lc uid us (pos + 1)"
  by (subst scanUsers.simps) simp

lemma scanUsers_cases:
  assumes "pos < length us"
  obtains (eq) "lc uid (userId (evt (us ! pos))) = 0" "scanUsers lc uid us pos = Found pos"
  | (gt) "0 < lc uid (userId (evt (us ! pos)))" "scanUsers lc uid us pos = InsertAt pos"
  | (lt) "lc uid (userId (evt (us ! pos))) < 0"
       "scanUsers lc uid us pos = scanUsers lc uid us (pos + 1)"
       "lc uid (userId (evt (us ! pos))) \<noteq> 0"
       "\<not> 0 < lc uid (userId (evt (us ! pos)))"
proof -
  consider "lc uid (userId (evt (us ! pos))) = 0" | "0 < lc uid (userId (evt (us ! pos)))"
    | "lc uid (userId (evt (us ! pos))) < 0"
    by linarith
  then show thesis
  proof cases
    case 1 with assms eq scanUsers_eq show ?thesis by blast
  next
    case 2 with assms gt scanUsers_gt show ?thesis by blast
  next
    case 3
    then have "lc uid (userId (evt (us ! pos))) \<noteq> 0" "\<not> 0 < lc uid (userId (evt (us ! pos)))"
      by auto
    with 3 assms lt scanUsers_lt show ?thesis by blast
  qed
qed

lemma scanUsers_Found:
  "scanUsers lc uid us pos = Found i \<Longrightarrow>
     pos \<le> i \<and> i < length us \<and> lc uid (userId (evt (us ! i))) = 0
     \<and> (\<forall>j. pos \<le> j \<and> j < i \<longrightarrow> lc uid (userId (evt (us ! j))) < 0)"
proof (induction lc uid us pos rule: scanUsers.induct)
  case (1 lc uid us pos)
  show ?case
  proof (cases "pos < length us")
    case False
    with "1.prems" show ?thesis by (simp add: scanUsers_end)
  next
    case True
    then show ?thesis
    proof (cases rule: scanUsers_cases [where uid = uid and lc = lc])
      case eq
      with "1.prems" True show ?thesis by auto
    next
      case gt
      with "1.prems" show ?thesis by simp
    next
      case lt
      with "1.prems" have rec: "scanUsers lc uid us (pos + 1) = Found i" by simp
      from "1.IH" [OF True refl lt(3) lt(4) rec]
      have ih: "pos + 1 \<le> i" "i < length us" "lc uid (userId (evt (us ! i))) = 0"
        "\<forall>j. pos + 1 \<le> j \<and> j < i \<longrightarrow> lc uid (userId (evt (us ! j))) < 0" by auto
      have "\<forall>j. pos \<le> j \<and> j < i \<longrightarrow> lc uid (userId (evt (us ! j))) < 0"
      proof (intro allI impI)
        fix j assume "pos \<le> j \<and> j < i"
        then have "j = pos \<or> (pos + 1 \<le> j \<and> j < i)" by auto
        then show "lc uid (userId (evt (us ! j))) < 0" using lt(1) ih(4) by auto
      qed
      with ih show ?thesis by simp
    qed
  qed
qed

lemma scanUsers_InsertAt:
  "scanUsers lc uid us pos = InsertAt i \<Longrightarrow> pos \<le> length us \<Longrightarrow>
     pos \<le> i \<and> i \<le> length us
     \<and> (\<forall>j. pos \<le> j \<and> j < i \<longrightarrow> lc uid (userId (evt (us ! j))) < 0)
     \<and> (i < length us \<longrightarrow> 0 < lc uid (userId (evt (us ! i))))"
proof (induction lc uid us pos rule: scanUsers.induct)
  case (1 lc uid us pos)
  show ?case
  proof (cases "pos < length us")
    case False
    with "1.prems" show ?thesis by (auto simp add: scanUsers_end)
  next
    case True
    then show ?thesis
    proof (cases rule: scanUsers_cases [where uid = uid and lc = lc])
      case eq
      with "1.prems" show ?thesis by simp
    next
      case gt
      with "1.prems" True show ?thesis by auto
    next
      case lt
      with "1.prems" have rec: "scanUsers lc uid us (pos + 1) = InsertAt i" by simp
      from True have "pos + 1 \<le> length us" by simp
      from "1.IH" [OF True refl lt(3) lt(4) rec this]
      have ih: "pos + 1 \<le> i" "i \<le> length us"
        "\<forall>j. pos + 1 \<le> j \<and> j < i \<longrightarrow> lc uid (userId (evt (us ! j))) < 0"
        "i < length us \<longrightarrow> 0 < lc uid (userId (evt (us ! i)))" by auto
      have "\<forall>j. pos \<le> j \<and> j < i \<longrightarrow> lc uid (userId (evt (us ! j))) < 0"
      proof (intro allI impI)
        fix j assume "pos \<le> j \<and> j < i"
        then have "j = pos \<or> (pos + 1 \<le> j \<and> j < i)" by auto
        then show "lc uid (userId (evt (us ! j))) < 0" using lt(1) ih(3) by auto
      qed
      with ih show ?thesis by simp
    qed
  qed
qed

text \<open>Conversely, the scan stops at the first position whose user id it does not sort before.\<close>

lemma scanUsers_finds:
  "pos \<le> i \<Longrightarrow> i < length us \<Longrightarrow> lc uid (userId (evt (us ! i))) = 0 \<Longrightarrow>
   (\<forall>j. pos \<le> j \<and> j < i \<longrightarrow> lc uid (userId (evt (us ! j))) < 0) \<Longrightarrow>
     scanUsers lc uid us pos = Found i"
proof (induction lc uid us pos rule: scanUsers.induct)
  case (1 lc uid us pos)
  from "1.prems" have inb: "pos < length us" by simp
  show ?case
  proof (cases "pos = i")
    case True
    with "1.prems" show ?thesis by (simp add: scanUsers_eq)
  next
    case False
    with "1.prems" have lt: "lc uid (userId (evt (us ! pos))) < 0" and le: "pos + 1 \<le> i"
      by auto
    then have c: "lc uid (userId (evt (us ! pos))) \<noteq> 0"
       "\<not> 0 < lc uid (userId (evt (us ! pos)))"
      by auto
    have "\<forall>j. pos + 1 \<le> j \<and> j < i \<longrightarrow> lc uid (userId (evt (us ! j))) < 0"
      using "1.prems"(4) by auto
    from "1.IH" [OF inb refl c le "1.prems"(2,3) this]
    show ?thesis using scanUsers_lt [of pos us lc uid, OF inb lt] by simp
  qed
qed

section \<open>The roster\<close>

lemmas roster_eval = mergeAll_def updateMembersList_def scanUsers_end scanUsers_eq scanUsers_gt
  scanUsers_lt updateReceived_def isNewer_def codeUnitCompare_def orEmpty_def
  newLivePresence_def onlineEvent_def toArray_def forEach_def userIds_def descending_def Let_def

lemma descending_nth:
  "descending lc xs \<Longrightarrow> j < k \<Longrightarrow> k < length xs \<Longrightarrow> lc (xs ! k) (xs ! j) < 0"
  unfolding descending_def by (rule sorted_wrt_nth_less)

lemma descending_insert:
  assumes cc: "consistentComparator lc"
    and srt: "descending lc xs" and le: "i \<le> length xs"
    and before: "\<forall>j. j < i \<longrightarrow> lc u (xs ! j) < 0"
    and at: "i < length xs \<longrightarrow> 0 < lc u (xs ! i)"
  shows "descending lc (take i xs @ u # drop i xs)"
proof -
  have "sorted_wrt (\<lambda>a b. lc b a < 0) (take i xs @ drop i xs)"
    using srt by (simp add: descending_def)
  then have parts: "sorted_wrt (\<lambda>a b. lc b a < 0) (take i xs)"
    "sorted_wrt (\<lambda>a b. lc b a < 0) (drop i xs)"
    "\<forall>x \<in> set (take i xs). \<forall>y \<in> set (drop i xs). lc y x < 0"
    unfolding sorted_wrt_append by auto
  have A: "\<forall>x \<in> set (take i xs). lc u x < 0"
  proof
    fix x assume "x \<in> set (take i xs)"
    then obtain j where "j < length (take i xs)" "take i xs ! j = x"
      by (auto simp: in_set_conv_nth)
    then have "j < i" "x = xs ! j" by auto
    with before show "lc u x < 0" by simp
  qed
  have B: "\<forall>y \<in> set (drop i xs). lc y u < 0"
  proof
    fix y assume "y \<in> set (drop i xs)"
    then obtain k where k: "k < length (drop i xs)" "drop i xs ! k = y"
      by (auto simp: in_set_conv_nth)
    then have ik: "i + k < length xs" and y: "y = xs ! (i + k)" by auto
    then have i: "i < length xs" by simp
    with at have lt: "lc (xs ! i) u < 0" by (simp add: cc_anti [OF cc])
    show "lc y u < 0"
    proof (cases "k = 0")
      case True with y lt show ?thesis by simp
    next
      case False
      then have "i < i + k" by simp
      from descending_nth [OF srt this ik] have "lc (xs ! (i + k)) (xs ! i) < 0" .
      from cc_lt_trans [OF cc this lt] y show ?thesis by simp
    qed
  qed
  show ?thesis
    unfolding descending_def sorted_wrt_append using parts A B by auto
qed

text \<open>An entry may be replaced by one with a user id the comparison does not tell apart.\<close>

lemma descending_update:
  assumes cc: "consistentComparator lc"
    and srt: "descending lc xs" and i: "i < length xs" and tie: "lc u (xs ! i) = 0"
  shows "descending lc (xs[i := u])"
proof -
  have le: "lc u (xs ! i) \<le> 0" "lc (xs ! i) u \<le> 0"
    using tie cc_sym [OF cc tie] by simp_all
  have "lc ((xs[i := u]) ! k) ((xs[i := u]) ! j) < 0"
    if jk: "j < k" "k < length xs" for j k
  proof -
    from descending_nth [OF srt jk] have old: "lc (xs ! k) (xs ! j) < 0" .
    show ?thesis
    proof (cases "k = i")
      case True
      with jk have "j \<noteq> i" by simp
      from cc_le_lt_trans [OF cc le(1)] old True have "lc u (xs ! j) < 0" by simp
      with True jk i \<open>j \<noteq> i\<close> show ?thesis by simp
    next
      case False
      note ki = False
      show ?thesis
      proof (cases "j = i")
        case True
        from cc_lt_le_trans [OF cc old] True le(2) have "lc (xs ! k) u < 0" by simp
        with True ki jk i show ?thesis by simp
      next
        case False
        with ki old show ?thesis by simp
      qed
    qed
  qed
  then show ?thesis
    by (simp add: descending_def sorted_wrt_iff_nth_less)
qed

lemma descending_distinct:
  assumes cc: "consistentComparator lc" and srt: "descending lc xs"
  shows "distinct xs"
proof -
  have "xs ! j \<noteq> xs ! k" if "j < k" "k < length xs" for j k
  proof
    assume "xs ! j = xs ! k"
    with descending_nth [OF srt that] have "lc (xs ! k) (xs ! k) < 0" by simp
    with cc_refl [OF cc, of "xs ! k"] show False by simp
  qed
  then have "xs ! j \<noteq> xs ! k" if "j < length xs" "k < length xs" "j \<noteq> k" for j k
    using that by (cases "j < k") (force simp: nat_neq_iff)+
  then show ?thesis
    by (simp add: distinct_conv_nth)
qed

lemma descending_filter:
  "descending lc (userIds us) \<Longrightarrow> descending lc (userIds (filter P us))"
  by (simp add: descending_def userIds_def sorted_wrt_map sorted_wrt_filter)

lemma userIds_insert:
  "userIds (take i us @ new # drop i us)
     = take i (userIds us) @ userId (evt new) # drop i (userIds us)"
  by (simp add: userIds_def take_map drop_map)

lemma userIds_update:
  "userIds (us[i := u']) = (userIds us)[i := userId (evt u')]"
  by (simp add: userIds_def map_update)

lemma updateReceived_userId:
  "snd (updateReceived lc u e) = u \<or> evt (snd (updateReceived lc u e)) = e"
  by (simp add: updateReceived_def)

lemma updateMembersList_descending:
  assumes cc: "consistentComparator lc" and srt: "descending lc (userIds (users p))"
  shows "descending lc (userIds (users (updateMembersList lc p e local)))"
proof (cases "scanUsers lc (userId e) (users p) 0")
  case (Found i)
  from scanUsers_Found [OF Found]
  have i: "i < length (users p)" "lc (userId e) (userId (evt (users p ! i))) = 0" by auto
  obtain ch cur where u: "updateReceived lc (users p ! i) e = (ch, cur)" by force
  with updateReceived_userId [of lc "users p ! i" e]
  have "cur = users p ! i \<or> evt cur = e" by simp
  then have "descending lc (userIds ((users p)[i := cur]))"
  proof
    assume "cur = users p ! i"
    with srt show ?thesis by simp
  next
    assume "evt cur = e"
    moreover have "descending lc ((userIds (users p))[i := userId e])"
      by (rule descending_update [OF cc srt]) (use i in \<open>simp_all add: userIds_def\<close>)
    ultimately show ?thesis by (simp add: userIds_update)
  qed
  with Found u show ?thesis
    by (simp add: updateMembersList_def)
next
  case (InsertAt i)
  from scanUsers_InsertAt [OF InsertAt]
  have i: "i \<le> length (users p)"
    "\<forall>j. j < i \<longrightarrow> lc (userId e) (userId (evt (users p ! j))) < 0"
    "i < length (users p) \<longrightarrow> 0 < lc (userId e) (userId (evt (users p ! i)))" by auto
  have "descending lc (take i (userIds (users p)) @ userId e # drop i (userIds (users p)))"
  proof (rule descending_insert [OF cc srt])
    show "i \<le> length (userIds (users p))" using i(1) by (simp add: userIds_def)
    show "\<forall>j. j < i \<longrightarrow> lc (userId e) (userIds (users p) ! j) < 0"
      using i(1,2) by (simp add: userIds_def)
    show "i < length (userIds (users p)) \<longrightarrow> 0 < lc (userId e) (userIds (users p) ! i)"
      using i(3) by (simp add: userIds_def)
  qed
  with InsertAt show ?thesis
    by (simp add: updateMembersList_def Let_def userIds_insert)
qed

lemma mergeAll_descending:
  "consistentComparator lc \<Longrightarrow> descending lc (userIds (users p)) \<Longrightarrow>
     descending lc (userIds (users (mergeAll lc p evs)))"
proof (induction evs arbitrary: p)
  case Nil
  then show ?case by (simp add: mergeAll_def)
next
  case (Cons a evs)
  obtain e local where a: "a = (e, local)" by (cases a)
  have "mergeAll lc p (a # evs) = mergeAll lc (updateMembersList lc p e local) evs"
    by (simp add: mergeAll_def a)
  with Cons.IH [OF Cons.prems(1) updateMembersList_descending [OF Cons.prems]] show ?case
    by simp
qed

text \<open>
  C7, as the code has it. The scan moves on while the new user id sorts before the
  current entry's and inserts in front of the first entry it sorts after, so the roster
  is kept in strictly descending order of user id, in the order of \<^verbatim>\<open>localeCompare\<close>.
  For a consistent comparison and a roster in that order (the empty one of a new object
  is), after any sequence of merges the roster is in that order and holds at most one
  user per user id, \<^verbatim>\<open>toArray\<close> returns the roster as it is, and \<^verbatim>\<open>forEach\<close> enumerates
  the users, filtered or not, in descending order of user id.
\<close>

theorem roster_unique_descending:
  assumes "consistentComparator lc" and "descending lc (userIds (users p))"
  shows "descending lc (userIds (users (mergeAll lc p evs)))
       \<and> distinct (userIds (users (mergeAll lc p evs)))
       \<and> toArray (mergeAll lc p evs) now = Inr (users (mergeAll lc p evs))
       \<and> (\<exists>us. forEach (mergeAll lc p evs) flt now = Inr us
                \<and> descending lc (userIds us) \<and> distinct (userIds us))"
proof -
  have s: "descending lc (userIds (users (mergeAll lc p evs)))"
    using assms by (rule mergeAll_descending)
  then have d: "distinct (userIds (users (mergeAll lc p evs)))"
    by (rule descending_distinct [OF assms(1)])
  have t: "toArray (mergeAll lc p evs) now = Inr (users (mergeAll lc p evs))"
    by (simp add: toArray_def forEach_def)
  obtain us where us: "forEach (mergeAll lc p evs) flt now = Inr us"
    "descending lc (userIds us)"
    using descending_filter [OF s] by (simp add: forEach_def)
  from us(2) have "distinct (userIds us)" by (rule descending_distinct [OF assms(1)])
  with s d t us show ?thesis by blast
qed

theorem roster_unique_descending_witness:
  "userIds (users (mergeAll codeUnitCompare newLivePresence
      [(onlineEvent ''b'' 10 ''c1'', False), (onlineEvent ''a'' 20 ''c2'', False),
       (onlineEvent ''c'' 20 ''c3'', True), (onlineEvent ''b'' 30 ''c1'', False)]))
     = [''c'', ''b'', ''a'']
   \<and> distinct (userIds (users (mergeAll codeUnitCompare newLivePresence
      [(onlineEvent ''b'' 10 ''c1'', False), (onlineEvent ''a'' 20 ''c2'', False),
       (onlineEvent ''c'' 20 ''c3'', True), (onlineEvent ''b'' 30 ''c1'', False)])))
   \<and> (\<exists>us. forEach (mergeAll codeUnitCompare newLivePresence
      [(onlineEvent ''b'' 10 ''c1'', False), (onlineEvent ''a'' 20 ''c2'', False),
       (onlineEvent ''c'' 20 ''c3'', True), (onlineEvent ''b'' 30 ''c1'', False)])
         (Some online) 25 = Inr us
        \<and> descending codeUnitCompare (userIds us) \<and> distinct (userIds us))"
proof -
  have h: "descending codeUnitCompare (userIds (users (newLivePresence :: unit LivePresence)))"
    by (simp add: newLivePresence_def userIds_def descending_def)
  have v: "userIds (users (mergeAll codeUnitCompare newLivePresence
      [(onlineEvent ''b'' 10 ''c1'', False), (onlineEvent ''a'' 20 ''c2'', False),
       (onlineEvent ''c'' 20 ''c3'', True), (onlineEvent ''b'' 30 ''c1'', False)]))
     = [''c'', ''b'', ''a'']"
    by (simp add: roster_eval)
  from roster_unique_descending [OF codeUnitCompare_consistent h,
      where now = 25 and flt = "Some online"] v
  show ?thesis by blast
qed

text \<open>
  Merging user \<open>a\<close> and then user \<open>b\<close> into a new roster enumerates \<open>b\<close> before
  \<open>a\<close>, although \<open>a\<close> sorts before \<open>b\<close>: the order is not ascending.
\<close>

theorem roster_ascending_counterexample:
  "toArray (mergeAll codeUnitCompare newLivePresence
      [(onlineEvent ''a'' 10 ''c1'', False), (onlineEvent ''b'' 20 ''c2'', False)]) 0
     = Inr [\<lparr>evt = onlineEvent ''b'' 20 ''c2'', isLocalUser = False\<rparr>,
            \<lparr>evt = onlineEvent ''a'' 10 ''c1'', isLocalUser = False\<rparr>]
   \<and> codeUnitCompare ''a'' ''b'' < 0"
  by (simp add: roster_eval)

text \<open>
  A record whose user id the comparison does not tell apart from a held one is routed
  to that entry and replaces its record; no second entry is inserted, although a lookup
  by equality of the ids does not find the user beforehand.
\<close>

lemma tied_user_id_updates_entry:
  "users (mergeAll foldCompare newLivePresence
      [(onlineEvent ''a'' 10 ''c1'', False), (onlineEvent ''A'' 20 ''c2'', False)])
     = [\<lparr>evt = onlineEvent ''A'' 20 ''c2'', isLocalUser = False\<rparr>]
   \<and> getPresenceForUser (mergeAll foldCompare newLivePresence
        [(onlineEvent ''a'' 10 ''c1'', False)]) ''A'' = Inr None"
  by (simp add: mergeAll_def updateMembersList_def scanUsers_end scanUsers_eq scanUsers_gt
      scanUsers_lt updateReceived_def isNewer_def foldCompare_def codeUnitCompare_def orEmpty_def
      newLivePresence_def onlineEvent_def getPresenceForUser_def Let_def)

section \<open>Applying a record twice\<close>

lemma isNewer_same: "consistentComparator lc \<Longrightarrow> \<not> isNewer lc (Some r) r d"
  by (simp add: isNewer_def cc_refl)

lemma updateMembersList_again:
  assumes cc: "consistentComparator lc"
  shows "updateMembersList lc (updateMembersList lc p e l1) e l2 = updateMembersList lc p e l1"
proof (cases "scanUsers lc (userId e) (users p) 0")
  case (Found i)
  from scanUsers_Found [OF Found]
  have i: "i < length (users p)"
    "\<forall>j. 0 \<le> j \<and> j < i \<longrightarrow> lc (userId e) (userId (evt (users p ! j))) < 0" by auto
  let ?u = "users p ! i"
  show ?thesis
  proof (cases "isNewer lc (Some (evt ?u)) e 0")
    case True
    let ?p1 = "p\<lparr>users := (users p)[i := ?u\<lparr>evt := e\<rparr>],
                  emitted := emitted p @ [(?u\<lparr>evt := e\<rparr>, l1)]\<rparr>"
    have p1: "updateMembersList lc p e l1 = ?p1"
      using Found True by (simp add: updateMembersList_def updateReceived_def)
    have "scanUsers lc (userId e) (users ?p1) 0 = Found i"
      by (rule scanUsers_finds) (use i in \<open>auto simp: nth_list_update cc_refl [OF cc]\<close>)
    then have "updateMembersList lc ?p1 e l2 = ?p1"
      using i(1) by (simp add: updateMembersList_def updateReceived_def isNewer_same [OF cc])
    with p1 show ?thesis by simp
  next
    case False
    have "updateMembersList lc p e l = p" for l
      using Found False by (simp add: updateMembersList_def updateReceived_def)
    then show ?thesis by simp
  qed
next
  case (InsertAt i)
  from scanUsers_InsertAt [OF InsertAt]
  have i: "i \<le> length (users p)"
    "\<forall>j. j < i \<longrightarrow> lc (userId e) (userId (evt (users p ! j))) < 0" by auto
  let ?new = "\<lparr>evt = e, isLocalUser = (userId e = userId (currentPresence p))\<rparr>"
  let ?p1 = "p\<lparr>users := take i (users p) @ ?new # drop i (users p),
                emitted := emitted p @ [(?new, l1)]\<rparr>"
  have p1: "updateMembersList lc p e l1 = ?p1"
    using InsertAt by (simp add: updateMembersList_def Let_def)
  have at: "users ?p1 ! i = ?new"
    using i(1) by (simp add: nth_append)
  have "scanUsers lc (userId e) (users ?p1) 0 = Found i"
  proof (rule scanUsers_finds)
    show "0 \<le> i" by simp
    show "i < length (users ?p1)" using i(1) by simp
    show "lc (userId e) (userId (evt (users ?p1 ! i))) = 0"
      using at by (simp add: cc_refl [OF cc])
    show "\<forall>j. 0 \<le> j \<and> j < i \<longrightarrow> lc (userId e) (userId (evt (users ?p1 ! j))) < 0"
      using i by (simp add: nth_append)
  qed
  then have "updateMembersList lc ?p1 e l2 = ?p1"
    using at i(1)
    by (simp add: updateMembersList_def updateReceived_def isNewer_same [OF cc]
        list_update_same_conv del: nth_append_length)
  with p1 show ?thesis by simp
qed

text \<open>In an ordered roster the scan finds the one entry whose user id ties with the given one.\<close>

lemma scanUsers_Found_unique:
  assumes cc: "consistentComparator lc" and srt: "descending lc (userIds us)"
    and f: "scanUsers lc uid us 0 = Found i"
    and u: "u \<in> set us" "lc uid (userId (evt u)) = 0"
  shows "u = us ! i"
proof -
  from scanUsers_Found [OF f]
  have i: "i < length us" "lc uid (userId (evt (us ! i))) = 0"
    "\<forall>j. j < i \<longrightarrow> lc uid (userId (evt (us ! j))) < 0" by auto
  from u(1) obtain k where k: "k < length us" "us ! k = u" by (auto simp: in_set_conv_nth)
  have "\<not> k < i" using i(3) k(2) u(2) by auto
  moreover have "\<not> i < k"
  proof
    assume "i < k"
    from descending_nth [OF srt this] k(1) i(1)
    have lt: "lc (userId (evt (us ! k))) (userId (evt (us ! i))) < 0" by (simp add: userIds_def)
    have "lc (userId (evt (us ! k))) uid \<le> 0"
      using cc_sym [OF cc u(2)] k(2) by simp
    moreover have "lc uid (userId (evt (us ! i))) \<le> 0" using i(2) by simp
    ultimately have a: "lc (userId (evt (us ! k))) (userId (evt (us ! i))) \<le> 0"
      by (rule cc_le_trans [OF cc])
    have "lc (userId (evt (us ! i))) uid \<le> 0" using cc_sym [OF cc i(2)] by simp
    moreover have "lc uid (userId (evt (us ! k))) \<le> 0" using u(2) k(2) by simp
    ultimately have "lc (userId (evt (us ! i))) (userId (evt (us ! k))) \<le> 0"
      by (rule cc_le_trans [OF cc])
    with lt cc_anti [OF cc, of "userId (evt (us ! i))" "userId (evt (us ! k))"]
    show False by simp
  qed
  ultimately have "k = i" by simp
  with k show ?thesis by simp
qed

lemma scanUsers_InsertAt_none:
  assumes cc: "consistentComparator lc" and srt: "descending lc (userIds us)"
    and f: "scanUsers lc uid us 0 = InsertAt i" and u: "u \<in> set us"
  shows "lc uid (userId (evt u)) \<noteq> 0"
proof -
  from scanUsers_InsertAt [OF f]
  have i: "i \<le> length us" "\<forall>j. j < i \<longrightarrow> lc uid (userId (evt (us ! j))) < 0"
    "i < length us \<longrightarrow> 0 < lc uid (userId (evt (us ! i)))" by auto
  from u obtain k where k: "k < length us" "us ! k = u" by (auto simp: in_set_conv_nth)
  show ?thesis
  proof (cases "k < i")
    case True with i(2) k(2) show ?thesis by auto
  next
    case False
    with k(1) have il: "i < length us" by simp
    with i(3) have gt: "0 < lc uid (userId (evt (us ! i)))" by simp
    show ?thesis
    proof (cases "k = i")
      case True with gt k(2) show ?thesis by auto
    next
      case ne: False
      with False have "i < k" by simp
      from descending_nth [OF srt this] k(1) il
      have "lc (userId (evt (us ! k))) (userId (evt (us ! i))) < 0" by (simp add: userIds_def)
      moreover from gt have "lc (userId (evt (us ! i))) uid < 0" by (simp add: cc_anti [OF cc])
      ultimately have "lc (userId (evt (us ! k))) uid < 0" by (rule cc_lt_trans [OF cc])
      then have "0 < lc uid (userId (evt (us ! k)))" by (simp add: cc_anti [OF cc])
      with k(2) show ?thesis by auto
    qed
  qed
qed

text \<open>
  C8, as the code has it. Let the comparison be consistent and the roster in its order.
  The first application of a record emits exactly one \<^verbatim>\<open>presenceChanged\<close> notification
  when the roster holds no user whose id \<^verbatim>\<open>localeCompare\<close> reports equal to the record's;
  when it holds one, it emits exactly one notification if the record is newer than the
  held one (\<^verbatim>\<open>isNewer(held, record, 0)\<close>) and changes nothing otherwise. A second
  application of the identical record changes nothing and emits nothing. For every
  record \<open>r\<close> and debounce period \<open>d\<close>, \<^verbatim>\<open>isNewer(r, r, d)\<close> is false.
\<close>

theorem same_record_twice:
  assumes "consistentComparator lc" and "descending lc (userIds (users p))"
  shows "((\<forall>u \<in> set (users p). lc (userId e) (userId (evt u)) \<noteq> 0) \<longrightarrow>
            emitted (updateMembersList lc p e l1)
              = emitted p @ [(\<lparr>evt = e, isLocalUser = (userId e = userId (currentPresence p))\<rparr>, l1)])
       \<and> (\<forall>u \<in> set (users p). lc (userId e) (userId (evt u)) = 0 \<longrightarrow>
            (if isNewer lc (Some (evt u)) e 0
             then emitted (updateMembersList lc p e l1) = emitted p @ [(u\<lparr>evt := e\<rparr>, l1)]
             else updateMembersList lc p e l1 = p))
       \<and> updateMembersList lc (updateMembersList lc p e l1) e l2 = updateMembersList lc p e l1
       \<and> \<not> isNewer lc (Some r) r d"
proof (cases "scanUsers lc (userId e) (users p) 0")
  case (Found i)
  from scanUsers_Found [OF Found]
  have i: "i < length (users p)" "lc (userId e) (userId (evt (users p ! i))) = 0" by auto
  then have 1: "\<not> (\<forall>u \<in> set (users p). lc (userId e) (userId (evt u)) \<noteq> 0)"
    using nth_mem by blast
  have at: "if isNewer lc (Some (evt (users p ! i))) e 0
        then emitted (updateMembersList lc p e l1) = emitted p @ [((users p ! i)\<lparr>evt := e\<rparr>, l1)]
        else updateMembersList lc p e l1 = p"
    using Found by (simp add: updateMembersList_def updateReceived_def)
  have 2: "\<forall>u \<in> set (users p). lc (userId e) (userId (evt u)) = 0 \<longrightarrow>
            (if isNewer lc (Some (evt u)) e 0
             then emitted (updateMembersList lc p e l1) = emitted p @ [(u\<lparr>evt := e\<rparr>, l1)]
             else updateMembersList lc p e l1 = p)"
  proof (intro ballI impI)
    fix u assume "u \<in> set (users p)" "lc (userId e) (userId (evt u)) = 0"
    from scanUsers_Found_unique [OF assms Found this] have "u = users p ! i" .
    with at show "if isNewer lc (Some (evt u)) e 0
             then emitted (updateMembersList lc p e l1) = emitted p @ [(u\<lparr>evt := e\<rparr>, l1)]
             else updateMembersList lc p e l1 = p" by simp
  qed
  from 1 2 show ?thesis
    using updateMembersList_again [OF assms(1)] isNewer_same [OF assms(1)] by blast
next
  case (InsertAt i)
  have 1: "emitted (updateMembersList lc p e l1)
          = emitted p @ [(\<lparr>evt = e, isLocalUser = (userId e = userId (currentPresence p))\<rparr>, l1)]"
    using InsertAt by (simp add: updateMembersList_def Let_def)
  have 2: "\<forall>u \<in> set (users p). lc (userId e) (userId (evt u)) \<noteq> 0"
    using scanUsers_InsertAt_none [OF assms InsertAt] by blast
  from 1 2 show ?thesis
    using updateMembersList_again [OF assms(1)] isNewer_same [OF assms(1)] by blast
qed

text \<open>
  On a new roster the first application inserts the user and notifies once, the second
  changes nothing; a later record of the same user then replaces the held one and
  notifies once more.
\<close>

theorem same_record_twice_witness:
  "emitted (updateMembersList codeUnitCompare newLivePresence (onlineEvent ''u1'' 100 ''c1'') False)
     = [(\<lparr>evt = onlineEvent ''u1'' 100 ''c1'', isLocalUser = False\<rparr>, False)]
   \<and> updateMembersList codeUnitCompare
        (updateMembersList codeUnitCompare newLivePresence (onlineEvent ''u1'' 100 ''c1'') False)
        (onlineEvent ''u1'' 100 ''c1'') False
     = updateMembersList codeUnitCompare newLivePresence (onlineEvent ''u1'' 100 ''c1'') False
   \<and> emitted (updateMembersList codeUnitCompare
        (updateMembersList codeUnitCompare newLivePresence (onlineEvent ''u1'' 100 ''c1'') False)
        (onlineEvent ''u1'' 200 ''c1'') False)
     = [(\<lparr>evt = onlineEvent ''u1'' 100 ''c1'', isLocalUser = False\<rparr>, False),
        (\<lparr>evt = onlineEvent ''u1'' 200 ''c1'', isLocalUser = False\<rparr>, False)]
   \<and> \<not> isNewer codeUnitCompare (Some (onlineEvent ''u1'' 100 ''c1''))
         (onlineEvent ''u1'' 100 ''c1'') 7"
proof -
  let ?p = "newLivePresence :: unit LivePresence"
  let ?e = "onlineEvent ''u1'' 100 ''c1''"
  let ?f = "onlineEvent ''u1'' 200 ''c1''"
  let ?p1 = "updateMembersList codeUnitCompare ?p ?e False"
  let ?u = "\<lparr>evt = ?e, isLocalUser = False\<rparr>"
  have h: "descending codeUnitCompare (userIds (users ?p))"
    by (simp add: newLivePresence_def userIds_def descending_def)
  have g: "\<forall>u \<in> set (users ?p). codeUnitCompare (userId ?e) (userId (evt u)) \<noteq> 0"
    by (simp add: newLivePresence_def)
  have c: "userId ?e = userId (currentPresence ?p) \<longleftrightarrow> False"
    by (simp add: newLivePresence_def onlineEvent_def)
  have e: "emitted ?p = []"
    by (simp add: newLivePresence_def)
  have first: "emitted ?p1 = [(?u, False)] \<and> updateMembersList codeUnitCompare ?p1 ?e False = ?p1
      \<and> \<not> isNewer codeUnitCompare (Some ?e) ?e 7"
    using same_record_twice [OF codeUnitCompare_consistent h,
      where e = ?e and ?l1.0 = False and ?l2.0 = False and r = ?e and d = 7] g c e
    by simp
  have us: "users ?p1 = [?u]" by (simp add: roster_eval)
  have h1: "descending codeUnitCompare (userIds (users ?p1))"
    by (simp add: us userIds_def descending_def)
  have mem: "?u \<in> set (users ?p1)" by (simp add: us)
  have tie: "codeUnitCompare (userId ?f) (userId (evt ?u)) = 0"
    "isNewer codeUnitCompare (Some (evt ?u)) ?f 0"
    by (simp_all add: onlineEvent_def codeUnitCompare_def isNewer_def)
  have second: "emitted (updateMembersList codeUnitCompare ?p1 ?f False)
      = [(?u, False), (\<lparr>evt = ?f, isLocalUser = False\<rparr>, False)]"
    using same_record_twice [OF codeUnitCompare_consistent h1,
      where e = ?f and ?l1.0 = False and ?l2.0 = False and r = ?e and d = 7] mem tie first
    by auto
  from first second show ?thesis by simp
qed

text \<open>
  A record older than the one the roster holds for the user: its first application
  already changes nothing and emits nothing.
\<close>

theorem stale_record_counterexample:
  "emitted (updateMembersList codeUnitCompare newLivePresence (onlineEvent ''u1'' 200 ''c1'') False)
     = [(\<lparr>evt = onlineEvent ''u1'' 200 ''c1'', isLocalUser = False\<rparr>, False)]
   \<and> emitted (updateMembersList codeUnitCompare
        (updateMembersList codeUnitCompare newLivePresence (onlineEvent ''u1'' 200 ''c1'') False)
        (onlineEvent ''u1'' 100 ''c2'') False)
     = [(\<lparr>evt = onlineEvent ''u1'' 200 ''c1'', isLocalUser = False\<rparr>, False)]
   \<and> users (updateMembersList codeUnitCompare
        (updateMembersList codeUnitCompare newLivePresence (onlineEvent ''u1'' 200 ''c1'') False)
        (onlineEvent ''u1'' 100 ''c2'') False)
     = [\<lparr>evt = onlineEvent ''u1'' 200 ''c1'', isLocalUser = False\<rparr>]"
  by (simp add: roster_eval)

section \<open>Calls before and after initialize\<close>

lemma updateMembersList_scope: "scope (updateMembersList lc p e local) = scope p"
  by (simp add: updateMembersList_def Let_def split: scan.splits prod.splits)

text \<open>
  C9, as the code has it. \<^verbatim>\<open>updatePresence\<close> throws on an object that is not
  initialised, and \<^verbatim>\<open>initialize\<close> throws on one that is, so a second \<^verbatim>\<open>initialize\<close>
  after a completed one throws. The read methods \<^verbatim>\<open>forEach\<close>, \<^verbatim>\<open>toArray\<close>,
  \<^verbatim>\<open>getCount\<close> and \<^verbatim>\<open>getPresenceForUser\<close> have no guard and never throw; on the empty
  roster of an object that is not initialised they enumerate nothing, count 0 and find
  no user.
\<close>

theorem initialize_guards:
  "(\<not> scope p \<longrightarrow> updatePresence lc p st d now cid = Inl (Error ''LivePresence: not started.''))
   \<and> (scope p \<longrightarrow>
        initialize lc p uid d' st' now guid cid = Inl (Error ''LivePresence: already started.''))
   \<and> (\<forall>p'. initialize lc p uid d' st' now guid cid = Inr p' \<longrightarrow>
        initialize lc p' uid2 d2 st2 now2 guid2 cid2
          = Inl (Error ''LivePresence: already started.''))
   \<and> forEach p flt now \<noteq> Inl err
   \<and> toArray p now \<noteq> Inl err
   \<and> getCount p flt now \<noteq> Inl err
   \<and> getPresenceForUser p uid3 \<noteq> Inl err
   \<and> (users p = [] \<longrightarrow>
        forEach p flt now = Inr [] \<and> toArray p now = Inr [] \<and> getCount p flt now = Inr 0
        \<and> getPresenceForUser p uid3 = Inr None)"
proof -
  have 1: "\<not> scope p \<longrightarrow>
        updatePresence lc p st d now cid = Inl (Error ''LivePresence: not started.'')"
    by (simp add: updatePresence_def)
  have 2: "scope p \<longrightarrow>
        initialize lc p uid d' st' now guid cid = Inl (Error ''LivePresence: already started.'')"
    by (simp add: initialize_def)
  have 3: "\<forall>p'. initialize lc p uid d' st' now guid cid = Inr p' \<longrightarrow>
        initialize lc p' uid2 d2 st2 now2 guid2 cid2
          = Inl (Error ''LivePresence: already started.'')"
  proof (intro allI impI)
    fix p' assume a: "initialize lc p uid d' st' now guid cid = Inr p'"
    then have "scope p'"
      by (auto simp: initialize_def Let_def updateMembersList_scope split: if_splits)
    then show "initialize lc p' uid2 d2 st2 now2 guid2 cid2
                 = Inl (Error ''LivePresence: already started.'')"
      by (simp add: initialize_def)
  qed
  have 4: "forEach p flt now \<noteq> Inl err" "toArray p now \<noteq> Inl err"
    by (simp_all add: forEach_def toArray_def)
  have 5: "getCount p flt now \<noteq> Inl err"
    by (simp add: getCount_def split: option.splits)
  have 6: "getPresenceForUser p uid3 \<noteq> Inl err"
    by (simp add: getPresenceForUser_def)
  have 7: "users p = [] \<longrightarrow>
        forEach p flt now = Inr [] \<and> toArray p now = Inr [] \<and> getCount p flt now = Inr 0
        \<and> getPresenceForUser p uid3 = Inr None"
    by (simp add: forEach_def toArray_def getCount_def getPresenceForUser_def split: option.splits)
  from 1 2 3 4 5 6 7 show ?thesis by blast
qed

theorem initialize_guards_witness:
  "updatePresence codeUnitCompare (newLivePresence :: unit LivePresence) (Some away) None 5 ''c1''
     = Inl (Error ''LivePresence: not started.'')
   \<and> (\<exists>p'. initialize codeUnitCompare (newLivePresence :: unit LivePresence)
               (Some ''u1'') None online 5 ''guid'' ''c1'' = Inr p'
        \<and> initialize codeUnitCompare p' (Some ''u1'') None online 6 ''guid'' ''c1''
            = Inl (Error ''LivePresence: already started.''))
   \<and> forEach (newLivePresence :: unit LivePresence) (Some online) 5 = Inr []
   \<and> toArray (newLivePresence :: unit LivePresence) 5 = Inr []
   \<and> getCount (newLivePresence :: unit LivePresence) (Some online) 5 = Inr 0
   \<and> getPresenceForUser (newLivePresence :: unit LivePresence) ''u1'' = Inr None"
proof -
  let ?p = "newLivePresence :: unit LivePresence"
  have s: "\<not> scope ?p" "users ?p = []" by (simp_all add: newLivePresence_def)
  obtain p' where
    p': "initialize codeUnitCompare ?p (Some ''u1'') None online 5 ''guid'' ''c1'' = Inr p'"
    using s(1) by (simp add: initialize_def Let_def)
  from initialize_guards [of ?p codeUnitCompare "Some away" None 5 "''c1''" "Some ''u1''" None
      online "''guid''" "Some ''u1''" None online 6 "''guid''" "''c1''" "Some online"
      "Error []" "''u1''"] s p'
  show ?thesis by auto
qed

text \<open>
  On a new object, not initialised, the read methods return instead of throwing.
\<close>

theorem uninitialized_reads_counterexample:
  "\<not> isInitialized (newLivePresence :: unit LivePresence)
   \<and> getCount (newLivePresence :: unit LivePresence) None 0 = Inr 0
   \<and> forEach (newLivePresence :: unit LivePresence) None 0 = Inr []
   \<and> getPresenceForUser (newLivePresence :: unit LivePresence) ''u1'' = Inr None"
  by (simp add: getCount_def forEach_def getPresenceForUser_def newLivePresence_def isInitialized_def)

section \<open>The expiration period\<close>



end
